theory Spec2Isabelle
  imports Main
begin

section \<open>The generator: \<open>DEFINE_ENUM_WITH_STRING_CONVERSIONS\<close>\<close>

text \<open>
  The header \<^verbatim>\<open>define_enum.hpp\<close> consists of one public macro. Given an X-macro that
  lists every enumerator once, it expands to a scoped enum with the extra final
  enumerator \<^verbatim>\<open>TOTAL\<close>, a \<^verbatim>\<open>std::array\<close> of the spellings, and three functions on them.

  An X-macro \<^verbatim>\<open>#define COLOUR_ENUM(X) X(red) X(green) X(blue)\<close> is represented by the list of
  its enumerators; applying it to a helper macro applies the helper to every entry, in order.
  The model fixes the usual LP64 widths: the underlying type \<^verbatim>\<open>int\<close> of the scoped enum has
  32 bits, \<^verbatim>\<open>std::size_t\<close> has 64. Values of the enum are represented by the value of
  their underlying integer. The entries of the list are plain identifiers: no keywords and
  no names of macros, which the preprocessor would replace.
\<close>

type_synonym ident = string
type_synonym string_view = string
type_synonym EnumName = int
type_synonym size_t = nat

definition INT_MAX :: int where
  "INT_MAX = 2 ^ 31 - 1"

definition X_MACRO :: "ident list \<Rightarrow> (ident \<Rightarrow> 'a) \<Rightarrow> 'a list" where
  "X_MACRO ids X = map X ids"

text \<open>\<^verbatim>\<open>#define EU_ENUM_DECLARE(name) name,\<close> and \<^verbatim>\<open>#define EU_ENUM_STRING(name) #name,\<close>:
  the first yields the enumerator itself, the second its spelling as a string literal.\<close>

definition EU_ENUM_DECLARE :: "ident \<Rightarrow> ident" where
  "EU_ENUM_DECLARE name = name"

definition EU_ENUM_STRING :: "ident \<Rightarrow> string_view" where
  "EU_ENUM_STRING name = name"

text \<open>
  What the compiler does with the expansion is part of what the macro means. The ways in
  which the generated declarations can be ill-formed are values of \<open>compile_error\<close>:
  an enumerator declared twice in the same enum, an enumerator whose value the underlying
  type cannot hold, an array initialiser with more elements than the array, and the use of
  a name that has no declaration.
\<close>

datatype compile_error =
    Redefinition ident
  | NotRepresentable ident
  | ExcessInitializers
  | Undeclared ident

text \<open>
  \<^verbatim>\<open>enum class EnumName { ENUM_DEF(EU_ENUM_DECLARE) TOTAL };\<close>
  The enumerators are declared from left to right. None has an initialiser, so the first has
  the value 0 and each later one the value of its predecessor plus one. \<open>decl\<close> holds the
  enumerators declared so far.
\<close>

fun enum_class ::
  "ident list \<Rightarrow> int \<Rightarrow> (ident \<times> EnumName) list
     \<Rightarrow> compile_error + (ident \<times> EnumName) list" where
  "enum_class [] k decl = Inr decl"
| "enum_class (x # xs) k decl =
     (if map_of decl x \<noteq> None then Inl (Redefinition x)
      else if INT_MAX < k then Inl (NotRepresentable x)
      else enum_class xs (k + 1) (decl @ [(x, k)]))"

text \<open>\<^verbatim>\<open>static_cast<std::size_t>(value)\<close>: the value modulo \<open>2 ^ 64\<close>.\<close>

definition static_cast_size_t :: "EnumName \<Rightarrow> size_t" where
  "static_cast_size_t val = nat (val mod 2 ^ 64)"

text \<open>\<^verbatim>\<open>static_cast<EnumName>(i)\<close>: the low 32 bits of \<open>i\<close>, read as two's complement.\<close>

definition static_cast_EnumName :: "size_t \<Rightarrow> EnumName" where
  "static_cast_EnumName i =
     (let r = int i mod 2 ^ 32 in if r \<le> INT_MAX then r else r - 2 ^ 32)"

text \<open>
  \<^verbatim>\<open>std::array<std::string_view, n> a = { ... };\<close>
  Aggregate initialisation: more initialisers than elements is an error, and elements
  without an initialiser are value-initialised, which for a \<^verbatim>\<open>string_view\<close> is the empty view.
\<close>

definition array_init :: "size_t \<Rightarrow> string_view list \<Rightarrow> compile_error + string_view list" where
  "array_init n xs =
     (if n < length xs then Inl ExcessInitializers
      else Inr (xs @ replicate (n - length xs) []))"

record generated =
  enumerators :: "(ident \<times> EnumName) list"
  EnumName_names :: "string_view list"

definition DEFINE_ENUM_WITH_STRING_CONVERSIONS :: "ident list \<Rightarrow> compile_error + generated" where
  "DEFINE_ENUM_WITH_STRING_CONVERSIONS ids =
     (case enum_class (X_MACRO ids EU_ENUM_DECLARE @ [''TOTAL'']) 0 [] of
        Inl err \<Rightarrow> Inl err
      | Inr decl \<Rightarrow>
          (case map_of decl ''TOTAL'' of
             None \<Rightarrow> Inl (Undeclared ''TOTAL'')
           | Some tot \<Rightarrow>
               (case array_init (static_cast_size_t tot) (X_MACRO ids EU_ENUM_STRING) of
                  Inl err \<Rightarrow> Inl err
                | Inr names \<Rightarrow> Inr \<lparr>enumerators = decl, EnumName_names = names\<rparr>)))"

text \<open>The value of an enumerator of the generated enum, looked up by name.\<close>

definition enumerator :: "generated \<Rightarrow> ident \<Rightarrow> EnumName option" where
  "enumerator g x = map_of (enumerators g) x"

section \<open>The generated functions\<close>

text \<open>
  At run time two things can go wrong: an \<^verbatim>\<open>assert\<close> fails and aborts the program, or the
  program does something the language leaves undefined (an index past the end of the
  array, or the end of a value-returning function reached without a \<^verbatim>\<open>return\<close>).
  Assertions are enabled: the source does not define \<^verbatim>\<open>NDEBUG\<close>, and \<^verbatim>\<open>assert\<close> is the
  macro of \<^verbatim>\<open><cassert>\<close>.
\<close>

datatype failure = AssertionFailed string | UndefinedBehaviour

definition array_at :: "'a list \<Rightarrow> size_t \<Rightarrow> failure + 'a" where
  "array_at a i = (if i < length a then Inr (a ! i) else Inl UndefinedBehaviour)"

definition assert_that :: "bool \<Rightarrow> string \<Rightarrow> failure + unit" where
  "assert_that c msg = (if c then Inr () else Inl (AssertionFailed msg))"

text \<open>
  \<^verbatim>\<open>constexpr std::string_view to_string(EnumName value) noexcept {
      return EnumName_names[static_cast<std::size_t>(value)]; }\<close>
\<close>

definition to_string :: "string_view list \<Rightarrow> EnumName \<Rightarrow> failure + string_view" where
  "to_string names val = array_at names (static_cast_size_t val)"

text \<open>
  \<^verbatim>\<open>for (std::size_t i = 0; i < EnumName_names.size(); ++i)
      if (EnumName_names[i] == sv) return static_cast<EnumName>(i);
  assert(false && "Invalid Enum name");\<close>

  The loop is a recursion on \<open>i\<close>. The array is read only below its size, and \<open>i + 1\<close>
  cannot wrap because \<open>i\<close> is below a \<^verbatim>\<open>size_t\<close>. After the assertion the function has no
  \<^verbatim>\<open>return\<close>.
\<close>

function from_string_loop :: "string_view list \<Rightarrow> string_view \<Rightarrow> size_t \<Rightarrow> failure + EnumName" where
  "from_string_loop names sv i =
     (if i < length names then
        (if names ! i = sv then Inr (static_cast_EnumName i)
         else from_string_loop names sv (i + 1))
      else
        (case assert_that False ''Invalid Enum name'' of
           Inl f \<Rightarrow> Inl f
         | Inr u \<Rightarrow> Inl UndefinedBehaviour))"
  by pat_completeness auto
termination
  by (relation "measure (\<lambda>(names, sv, i). length names - i)") auto

declare from_string_loop.simps [simp del]

definition EnumName_from_string :: "string_view list \<Rightarrow> string_view \<Rightarrow> failure + EnumName" where
  "EnumName_from_string names sv = from_string_loop names sv 0"

text \<open>
  \<^verbatim>\<open>inline std::ostream& operator<<(std::ostream& os, EnumName value) {
      return os << to_string(value); }\<close>

  The standard library's insertion of a \<^verbatim>\<open>string_view\<close> into a stream is not part of the
  header; it is the parameter \<open>put\<close>, which takes the stream and the text and gives the
  stream afterwards.
\<close>

definition operator_lshift ::
  "('os \<Rightarrow> string_view \<Rightarrow> 'os) \<Rightarrow> string_view list \<Rightarrow> 'os \<Rightarrow> EnumName \<Rightarrow> failure + 'os" where
  "operator_lshift put names os val =
     (case to_string names val of Inl f \<Rightarrow> Inl f | Inr s \<Rightarrow> Inr (put os s))"

section \<open>The demonstration program's enum\<close>

text \<open>
  \<^verbatim>\<open>main.cpp\<close> lists \<^verbatim>\<open>red\<close>, \<^verbatim>\<open>green\<close>, \<^verbatim>\<open>blue\<close> in the X-macro \<^verbatim>\<open>COLOUR_ENUM\<close> and
  expands \<^verbatim>\<open>DEFINE_ENUM_WITH_STRING_CONVERSIONS(Colour, COLOUR_ENUM)\<close>.
\<close>

definition COLOUR_ENUM :: "ident list" where
  "COLOUR_ENUM = [''red'', ''green'', ''blue'']"

definition Colour :: generated where
  "Colour = \<lparr>enumerators = [(''red'', 0), (''green'', 1), (''blue'', 2), (''TOTAL'', 3)],
             EnumName_names = [''red'', ''green'', ''blue'']\<rparr>"

text \<open>A text sink that keeps what has been written to it, and unformatted insertion into it.\<close>

definition sink_put :: "string \<Rightarrow> string_view \<Rightarrow> string" where
  "sink_put os s = os @ s"

section \<open>Properties of the casts and of the generator\<close>

lemma static_cast_EnumName_small: "int i \<le> INT_MAX \<Longrightarrow> static_cast_EnumName i = int i"
  by (simp add: static_cast_EnumName_def INT_MAX_def Let_def)

lemma static_cast_size_t_nonneg: "0 \<le> v \<Longrightarrow> v \<le> INT_MAX \<Longrightarrow> static_cast_size_t v = nat v"
  by (simp add: static_cast_size_t_def INT_MAX_def)

lemma static_cast_size_t_int: "int n \<le> INT_MAX \<Longrightarrow> static_cast_size_t (int n) = n"
  by (simp add: static_cast_size_t_nonneg)

lemma zip_values_Cons:
  "zip (x # xs) (map (\<lambda>j. k + int j) [0..<length (x # xs)])
     = (x, k) # zip xs (map (\<lambda>j. k + 1 + int j) [0..<length xs])"
  by (simp add: map_upt_Suc add_ac del: upt_Suc)

lemma enum_class_Inr:
  "enum_class xs k decl = Inr r \<Longrightarrow>
     r = decl @ zip xs (map (\<lambda>j. k + int j) [0..<length xs]) \<and>
     distinct xs \<and> set xs \<inter> fst ` set decl = {} \<and>
     (xs \<noteq> [] \<longrightarrow> k + int (length xs) - 1 \<le> INT_MAX)"
proof (induction xs arbitrary: k decl)
  case Nil
  then show ?case by simp
next
  case (Cons x xs)
  from Cons.prems have fresh: "map_of decl x = None" and fits: "k \<le> INT_MAX"
    and rest: "enum_class xs (k + 1) (decl @ [(x, k)]) = Inr r"
    by (auto split: if_splits)
  from Cons.IH [OF rest] have
    r: "r = (decl @ [(x, k)]) @ zip xs (map (\<lambda>j. k + 1 + int j) [0..<length xs])"
    and d: "distinct xs" and disj: "set xs \<inter> fst ` set (decl @ [(x, k)]) = {}"
    and bound: "xs \<noteq> [] \<longrightarrow> k + 1 + int (length xs) - 1 \<le> INT_MAX"
    by auto
  have "x \<notin> fst ` set decl" using fresh by (simp add: map_of_eq_None_iff)
  moreover have "x \<notin> set xs" using disj by auto
  moreover note zip_values_Cons [of x xs k]
  ultimately show ?case using r d disj bound fits by (cases xs) auto
qed

lemma enum_class_ok:
  "distinct xs \<Longrightarrow> set xs \<inter> fst ` set decl = {} \<Longrightarrow> (xs \<noteq> [] \<longrightarrow> k + int (length xs) - 1 \<le> INT_MAX) \<Longrightarrow>
   enum_class xs k decl = Inr (decl @ zip xs (map (\<lambda>j. k + int j) [0..<length xs]))"
proof (induction xs arbitrary: k decl)
  case Nil
  then show ?case by simp
next
  case (Cons x xs)
  note z = zip_values_Cons [of x xs k]
  have fresh: "map_of decl x = None" using Cons.prems(2) by (auto simp: map_of_eq_None_iff)
  have fits: "k \<le> INT_MAX" using Cons.prems(3) by simp
  have "enum_class xs (k + 1) (decl @ [(x, k)]) = Inr ((decl @ [(x, k)]) @ zip xs (map (\<lambda>j. k + 1 + int j) [0..<length xs]))"
    using Cons.prems by (intro Cons.IH) auto
  then show ?case using fresh fits z by simp
qed


lemma X_MACRO_DECLARE [simp]: "X_MACRO ids EU_ENUM_DECLARE = ids"
  by (simp add: X_MACRO_def EU_ENUM_DECLARE_def map_idI)

lemma X_MACRO_STRING [simp]: "X_MACRO ids EU_ENUM_STRING = ids"
  by (simp add: X_MACRO_def EU_ENUM_STRING_def map_idI)

lemma map_of_zip_values:
  assumes "distinct xs" and "j < length xs"
  shows "map_of (zip xs (map int [0..<length xs])) (xs ! j) = Some (int j)"
  using map_of_zip_nth [of xs "map int [0..<length xs]" j] assms by simp

lemma DEFINE_ENUM_Inr:
  assumes "DEFINE_ENUM_WITH_STRING_CONVERSIONS ids = Inr g"
  shows "distinct (ids @ [''TOTAL''])"
    and "int (length ids) \<le> INT_MAX"
    and "enumerators g = zip (ids @ [''TOTAL'']) (map int [0..<length (ids @ [''TOTAL''])])"
    and "EnumName_names g = ids"
proof -
  from assms obtain decl tot names where
    decl: "enum_class (ids @ [''TOTAL'']) 0 [] = Inr decl"
    and tot: "map_of decl ''TOTAL'' = Some tot"
    and names: "array_init (static_cast_size_t tot) ids = Inr names"
    and g: "g = \<lparr>enumerators = decl, EnumName_names = names\<rparr>"
    by (auto simp: DEFINE_ENUM_WITH_STRING_CONVERSIONS_def split: sum.splits option.splits)
  from enum_class_Inr [OF decl]
  have d: "decl = zip (ids @ [''TOTAL'']) (map int [0..<length (ids @ [''TOTAL''])])"
    and dist: "distinct (ids @ [''TOTAL''])"
    and fits: "int (length ids) \<le> INT_MAX"
    by simp_all
  have "map_of decl ((ids @ [''TOTAL'']) ! length ids) = Some (int (length ids))"
    unfolding d using dist by (intro map_of_zip_values) simp_all
  with tot have "tot = int (length ids)" by simp
  with names fits have "names = ids"
    by (simp add: array_init_def static_cast_size_t_int)
  with g d dist fits
  show "distinct (ids @ [''TOTAL''])" and "int (length ids) \<le> INT_MAX"
    and "enumerators g = zip (ids @ [''TOTAL'']) (map int [0..<length (ids @ [''TOTAL''])])"
    and "EnumName_names g = ids"
    by simp_all
qed

lemma DEFINE_ENUM_ok:
  assumes "distinct ids" and "''TOTAL'' \<notin> set ids" and "int (length ids) \<le> INT_MAX"
  shows "DEFINE_ENUM_WITH_STRING_CONVERSIONS ids =
           Inr \<lparr>enumerators = zip (ids @ [''TOTAL'']) (map int [0..<length (ids @ [''TOTAL''])]),
                EnumName_names = ids\<rparr>"
proof -
  let ?decl = "zip (ids @ [''TOTAL'']) (map int [0..<length (ids @ [''TOTAL''])])"
  have dist: "distinct (ids @ [''TOTAL''])" using assms by simp
  have "enum_class (ids @ [''TOTAL'']) 0 [] = Inr ([] @ zip (ids @ [''TOTAL'']) (map (\<lambda>j. 0 + int j) [0..<length (ids @ [''TOTAL''])]))"
    using dist assms(3) by (intro enum_class_ok) simp_all
  then have decl: "enum_class (ids @ [''TOTAL'']) 0 [] = Inr ?decl" by simp
  have "map_of ?decl ((ids @ [''TOTAL'']) ! length ids) = Some (int (length ids))"
    using dist by (intro map_of_zip_values) simp_all
  then have tot: "map_of ?decl ''TOTAL'' = Some (int (length ids))" by simp
  have "array_init (static_cast_size_t (int (length ids))) ids = Inr ids"
    using assms(3) by (simp add: array_init_def static_cast_size_t_int)
  then show ?thesis
    unfolding DEFINE_ENUM_WITH_STRING_CONVERSIONS_def using decl tot
    by (simp only: X_MACRO_DECLARE X_MACRO_STRING sum.case option.case)
qed

lemma enumerator_TOTAL:
  assumes "DEFINE_ENUM_WITH_STRING_CONVERSIONS ids = Inr g"
  shows "enumerator g ''TOTAL'' = Some (int (length ids))"
proof -
  note gen = DEFINE_ENUM_Inr [OF assms]
  have "map_of (enumerators g) ((ids @ [''TOTAL'']) ! length ids) = Some (int (length ids))"
    unfolding gen(3) using gen(1) by (intro map_of_zip_values) simp_all
  then show ?thesis by (simp add: enumerator_def)
qed

lemma enumerator_nth:
  assumes "DEFINE_ENUM_WITH_STRING_CONVERSIONS ids = Inr g" and "j < length ids"
  shows "enumerator g (ids ! j) = Some (int j)"
proof -
  note gen = DEFINE_ENUM_Inr [OF assms(1)]
  have "map_of (enumerators g) ((ids @ [''TOTAL'']) ! j) = Some (int j)"
    unfolding gen(3) using gen(1) assms(2) by (intro map_of_zip_values) simp_all
  then show ?thesis using assms(2) by (simp add: enumerator_def nth_append)
qed

subsection \<open>The scan of \<open>EnumName_from_string\<close>\<close>

lemma from_string_loop_Inr:
  "from_string_loop names sv i = Inr v \<Longrightarrow>
     \<exists>j. i \<le> j \<and> j < length names \<and> names ! j = sv \<and>
         (\<forall>k. i \<le> k \<and> k < j \<longrightarrow> names ! k \<noteq> sv) \<and> v = static_cast_EnumName j"
proof (induction names sv i rule: from_string_loop.induct)
  case (1 names sv i)
  show ?case
  proof (cases "i < length names")
    case False
    with "1.prems" show ?thesis
      by (simp add: from_string_loop.simps [of names sv i] assert_that_def)
  next
    case inside: True
    show ?thesis
    proof (cases "names ! i = sv")
      case True
      with inside "1.prems" have "v = static_cast_EnumName i"
        by (simp add: from_string_loop.simps [of names sv i])
      with inside True show ?thesis by (intro exI [of _ i]) auto
    next
      case False
      with inside "1.prems" have "from_string_loop names sv (i + 1) = Inr v"
        by (simp add: from_string_loop.simps [of names sv i])
      from "1.IH" [OF inside False this] obtain j where
        j: "i + 1 \<le> j" "j < length names" "names ! j = sv"
           "\<forall>k. i + 1 \<le> k \<and> k < j \<longrightarrow> names ! k \<noteq> sv" "v = static_cast_EnumName j"
        by blast
      have "\<forall>k. i \<le> k \<and> k < j \<longrightarrow> names ! k \<noteq> sv"
      proof (intro allI impI)
        fix k assume "i \<le> k \<and> k < j"
        then consider "k = i" | "i + 1 \<le> k \<and> k < j" by linarith
        then show "names ! k \<noteq> sv" using False j(4) by cases auto
      qed
      with j show ?thesis by (intro exI [of _ j]) simp
    qed
  qed
qed

lemma from_string_loop_absent:
  "(\<forall>k. i \<le> k \<and> k < length names \<longrightarrow> names ! k \<noteq> sv) \<Longrightarrow>
     from_string_loop names sv i = Inl (AssertionFailed ''Invalid Enum name'')"
proof (induction names sv i rule: from_string_loop.induct)
  case (1 names sv i)
  show ?case
  proof (cases "i < length names")
    case False
    then show ?thesis
      by (simp add: from_string_loop.simps [of names sv i] assert_that_def)
  next
    case True
    with "1.prems" have ne: "names ! i \<noteq> sv" by simp
    have "from_string_loop names sv (i + 1) = Inl (AssertionFailed ''Invalid Enum name'')"
      using "1.prems" by (intro "1.IH" [OF True ne]) simp
    with True ne show ?thesis
      by (simp add: from_string_loop.simps [of names sv i])
  qed
qed

lemma from_string_loop_found:
  "i \<le> j \<Longrightarrow> j < length names \<Longrightarrow> names ! j = sv \<Longrightarrow>
   (\<forall>k. i \<le> k \<and> k < j \<longrightarrow> names ! k \<noteq> sv) \<Longrightarrow>
     from_string_loop names sv i = Inr (static_cast_EnumName j)"
proof (induction names sv i rule: from_string_loop.induct)
  case (1 names sv i)
  from "1.prems" have inside: "i < length names" by simp
  show ?case
  proof (cases "i = j")
    case True
    with "1.prems" inside show ?thesis
      by (simp add: from_string_loop.simps [of names sv j])
  next
    case False
    with "1.prems" have ne: "names ! i \<noteq> sv" and next_le: "i + 1 \<le> j" by simp_all
    have "from_string_loop names sv (i + 1) = Inr (static_cast_EnumName j)"
      using "1.prems" next_le by (intro "1.IH" [OF inside ne]) simp_all
    with inside ne show ?thesis
      by (simp add: from_string_loop.simps [of names sv i])
  qed
qed

lemma first_index:
  assumes "s \<in> set names"
  obtains i where "i < length names" and "names ! i = s" and "\<forall>j<i. names ! j \<noteq> s"
proof -
  let ?P = "\<lambda>i. i < length names \<and> names ! i = s"
  from assms obtain i0 where "?P i0" by (auto simp: in_set_conv_nth)
  then have "?P (LEAST i. ?P i)" by (rule LeastI)
  moreover have "\<forall>j<(LEAST i. ?P i). names ! j \<noteq> s"
  proof (intro allI impI)
    fix j assume lt: "j < (LEAST i. ?P i)"
    then have "\<not> ?P j" by (rule not_less_Least)
    moreover from lt \<open>?P (LEAST i. ?P i)\<close> have "j < length names" by simp
    ultimately show "names ! j \<noteq> s" by simp
  qed
  ultimately show thesis using that by blast
qed

lemma from_string_first:
  assumes "i < length names" and "names ! i = s" and "\<forall>j<i. names ! j \<noteq> s"
    and "int (length names) \<le> INT_MAX"
  shows "EnumName_from_string names s = Inr (int i)"
proof -
  have "from_string_loop names s 0 = Inr (static_cast_EnumName i)"
    using assms(1-3) by (intro from_string_loop_found) simp_all
  moreover have "static_cast_EnumName i = int i"
    using assms(1,4) by (intro static_cast_EnumName_small) simp
  ultimately show ?thesis by (simp add: EnumName_from_string_def)
qed

lemma to_string_valid:
  assumes "i < length names" and "int (length names) \<le> INT_MAX"
  shows "to_string names (int i) = Inr (names ! i)"
proof -
  have "static_cast_size_t (int i) = i"
    using assms by (intro static_cast_size_t_int) simp
  with assms(1) show ?thesis by (simp add: to_string_def array_at_def)
qed

lemma Colour_generated: "DEFINE_ENUM_WITH_STRING_CONVERSIONS COLOUR_ENUM = Inr Colour"
  by (simp add: DEFINE_ENUM_WITH_STRING_CONVERSIONS_def COLOUR_ENUM_def Colour_def X_MACRO_def
      EU_ENUM_DECLARE_def EU_ENUM_STRING_def INT_MAX_def static_cast_size_t_def array_init_def)

lemma Colour_names: "EnumName_names Colour = [''red'', ''green'', ''blue'']"
  by (simp add: Colour_def)

subsection \<open>What the compiler rejects\<close>

lemma enum_class_Inl:
  "enum_class xs k decl = Inl err \<Longrightarrow> \<exists>x. err = Redefinition x \<or> err = NotRepresentable x"
  by (induction xs arbitrary: k decl) (auto split: if_splits)

lemma DEFINE_ENUM_Inl:
  assumes "DEFINE_ENUM_WITH_STRING_CONVERSIONS ids = Inl err"
  shows "\<exists>x. err = Redefinition x \<or> err = NotRepresentable x"
proof (cases "enum_class (ids @ [''TOTAL'']) 0 []")
  case (Inl e)
  with assms have "err = e" by (simp add: DEFINE_ENUM_WITH_STRING_CONVERSIONS_def)
  with Inl show ?thesis by (auto dest: enum_class_Inl)
next
  case (Inr decl)
  from enum_class_Inr [OF Inr] have "distinct ids" and "''TOTAL'' \<notin> set ids"
    and "int (length ids) \<le> INT_MAX"
    by simp_all
  from DEFINE_ENUM_ok [OF this] assms show ?thesis by simp
qed

section \<open>The claims\<close>

text \<open>
  In the theorems below \<open>g\<close> is what the macro generates from the enumerator list \<open>ids\<close>,
  the Name Table is \<open>EnumName_names g\<close>, and a variant is the integer value of its enumerator.

  \<^bold>\<open>C1.\<close> When the spelling \<open>s\<close> occurs in the Name Table, \<open>EnumName_from_string\<close>, which
  scans the table from index 0 upward and compares whole strings, returns the variant whose
  ordinal is the least index at which the table holds \<open>s\<close>.
\<close>

theorem from_string_first_match:
  assumes "DEFINE_ENUM_WITH_STRING_CONVERSIONS ids = Inr g"
    and "s \<in> set (EnumName_names g)"
  shows "\<exists>i. EnumName_from_string (EnumName_names g) s = Inr (int i) \<and>
             i < length (EnumName_names g) \<and> EnumName_names g ! i = s \<and>
             (\<forall>j<i. EnumName_names g ! j \<noteq> s)"
proof -
  note gen = DEFINE_ENUM_Inr [OF assms(1)]
  from assms(2) obtain i where
    i: "i < length (EnumName_names g)" "EnumName_names g ! i = s"
       "\<forall>j<i. EnumName_names g ! j \<noteq> s"
    by (rule first_index)
  have "EnumName_from_string (EnumName_names g) s = Inr (int i)"
    using i gen(2,4) by (intro from_string_first) simp_all
  with i show ?thesis by blast
qed

theorem from_string_first_match_witness:
  "DEFINE_ENUM_WITH_STRING_CONVERSIONS COLOUR_ENUM = Inr Colour \<and>
   ''blue'' \<in> set (EnumName_names Colour) \<and>
   EnumName_from_string (EnumName_names Colour) ''blue'' = Inr 2"
proof -
  have mem: "''blue'' \<in> set (EnumName_names Colour)" by (simp add: Colour_names)
  from from_string_first_match [OF Colour_generated mem] obtain i where
    r: "EnumName_from_string (EnumName_names Colour) ''blue'' = Inr (int i)"
    and lt: "i < length (EnumName_names Colour)"
    and at: "EnumName_names Colour ! i = ''blue''"
    by blast
  from lt have "i = 0 \<or> i = 1 \<or> i = 2" by (auto simp: Colour_names)
  with at have "i = 2" by (auto simp: Colour_names)
  with r mem Colour_generated show ?thesis by simp
qed

text \<open>
  \<^bold>\<open>C2.\<close> For a valid variant \<open>v\<close>, one whose ordinal lies in \<open>0..N-1\<close>, \<open>to_string\<close>
  returns the Name Table's entry at that ordinal, and this entry is the spelling under which
  the enumerator of value \<open>v\<close> was declared.
\<close>

theorem to_string_valid_variant:
  assumes "DEFINE_ENUM_WITH_STRING_CONVERSIONS ids = Inr g"
    and "0 \<le> v" and "v < int (length (EnumName_names g))"
  shows "to_string (EnumName_names g) v = Inr (EnumName_names g ! nat v) \<and>
         EnumName_names g ! nat v = ids ! nat v \<and>
         enumerator g (ids ! nat v) = Some v"
proof -
  note gen = DEFINE_ENUM_Inr [OF assms(1)]
  from assms(2,3) have lt: "nat v < length (EnumName_names g)" by simp
  have "to_string (EnumName_names g) (int (nat v)) = Inr (EnumName_names g ! nat v)"
    using lt gen(2,4) by (intro to_string_valid) simp_all
  moreover have "enumerator g (ids ! nat v) = Some (int (nat v))"
    using assms(1) lt gen(4) by (intro enumerator_nth) simp_all
  ultimately show ?thesis using assms(2) gen(4) by simp
qed

theorem to_string_valid_variant_witness:
  "DEFINE_ENUM_WITH_STRING_CONVERSIONS COLOUR_ENUM = Inr Colour \<and>
   (0::int) \<le> 1 \<and> 1 < int (length (EnumName_names Colour)) \<and>
   to_string (EnumName_names Colour) 1 = Inr ''green'' \<and>
   enumerator Colour ''green'' = Some 1"
  using to_string_valid_variant [OF Colour_generated, of 1] Colour_generated
  by (simp add: Colour_names COLOUR_ENUM_def)

text \<open>
  \<^bold>\<open>C3.\<close> Rendering a valid variant with \<open>to_string\<close> and parsing the result with
  \<open>EnumName_from_string\<close> gives the variant back.
\<close>

theorem from_string_to_string:
  assumes "DEFINE_ENUM_WITH_STRING_CONVERSIONS ids = Inr g"
    and "0 \<le> v" and "v < int (length (EnumName_names g))"
  shows "to_string (EnumName_names g) v = Inr (EnumName_names g ! nat v) \<and>
         EnumName_from_string (EnumName_names g) (EnumName_names g ! nat v) = Inr v"
proof -
  note gen = DEFINE_ENUM_Inr [OF assms(1)]
  let ?names = "EnumName_names g"
  from assms(2,3) have lt: "nat v < length ?names" by simp
  have dist: "distinct ?names" using gen(1,4) by simp
  have "to_string ?names (int (nat v)) = Inr (?names ! nat v)"
    using lt gen(2,4) by (intro to_string_valid) simp_all
  moreover have "\<forall>j<nat v. ?names ! j \<noteq> ?names ! nat v"
    using dist lt by (auto simp: nth_eq_iff_index_eq)
  then have "EnumName_from_string ?names (?names ! nat v) = Inr (int (nat v))"
    using lt gen(2,4) by (intro from_string_first) simp_all
  ultimately show ?thesis using assms(2) by simp
qed

theorem from_string_to_string_witness:
  "DEFINE_ENUM_WITH_STRING_CONVERSIONS COLOUR_ENUM = Inr Colour \<and>
   (0::int) \<le> 2 \<and> 2 < int (length (EnumName_names Colour)) \<and>
   to_string (EnumName_names Colour) 2 = Inr ''blue'' \<and>
   EnumName_from_string (EnumName_names Colour) ''blue'' = Inr 2"
  using from_string_to_string [OF Colour_generated, of 2] Colour_generated
  by (simp add: Colour_names)

text \<open>
  \<^bold>\<open>C4.\<close> Parsing a spelling of the Name Table with \<open>EnumName_from_string\<close> and rendering
  the variant with \<open>to_string\<close> gives the spelling back.
\<close>

theorem to_string_from_string:
  assumes "DEFINE_ENUM_WITH_STRING_CONVERSIONS ids = Inr g"
    and "s \<in> set (EnumName_names g)"
  shows "\<exists>v. EnumName_from_string (EnumName_names g) s = Inr v \<and>
             to_string (EnumName_names g) v = Inr s"
proof -
  note gen = DEFINE_ENUM_Inr [OF assms(1)]
  let ?names = "EnumName_names g"
  from assms(2) obtain i where
    i: "i < length ?names" "?names ! i = s" "\<forall>j<i. ?names ! j \<noteq> s"
    by (rule first_index)
  have "EnumName_from_string ?names s = Inr (int i)"
    using i gen(2,4) by (intro from_string_first) simp_all
  moreover have "to_string ?names (int i) = Inr (?names ! i)"
    using i(1) gen(2,4) by (intro to_string_valid) simp_all
  ultimately show ?thesis using i(2) by simp
qed

theorem to_string_from_string_witness:
  "DEFINE_ENUM_WITH_STRING_CONVERSIONS COLOUR_ENUM = Inr Colour \<and>
   ''green'' \<in> set (EnumName_names Colour) \<and>
   (\<exists>v. EnumName_from_string (EnumName_names Colour) ''green'' = Inr v \<and>
        to_string (EnumName_names Colour) v = Inr ''green'')"
proof -
  have mem: "''green'' \<in> set (EnumName_names Colour)" by (simp add: Colour_names)
  from to_string_from_string [OF Colour_generated mem] mem Colour_generated
  show ?thesis by blast
qed

text \<open>
  \<^bold>\<open>C5.\<close> On a string that the Name Table does not hold, \<open>EnumName_from_string\<close> ends in
  the failed assertion \<^verbatim>\<open>assert(false && "Invalid Enum name")\<close>, which halts the program;
  it returns no variant at all. This holds for every table, generated or not.
\<close>

theorem from_string_unknown:
  assumes "s \<notin> set names"
  shows "EnumName_from_string names s = Inl (AssertionFailed ''Invalid Enum name'') \<and>
         (\<forall>v. EnumName_from_string names s \<noteq> Inr v)"
proof -
  have "\<forall>k. 0 \<le> k \<and> k < length names \<longrightarrow> names ! k \<noteq> s"
    using assms by (auto simp: in_set_conv_nth)
  then have "from_string_loop names s 0 = Inl (AssertionFailed ''Invalid Enum name'')"
    by (rule from_string_loop_absent)
  then show ?thesis by (simp add: EnumName_from_string_def)
qed

theorem from_string_unknown_witness:
  "DEFINE_ENUM_WITH_STRING_CONVERSIONS COLOUR_ENUM = Inr Colour \<and>
   ''purple'' \<notin> set (EnumName_names Colour) \<and>
   EnumName_from_string (EnumName_names Colour) ''purple'' = Inl (AssertionFailed ''Invalid Enum name'')"
proof -
  have absent: "''purple'' \<notin> set (EnumName_names Colour)" by (simp add: Colour_names)
  from from_string_unknown [OF absent] absent Colour_generated
  show ?thesis by blast
qed

text \<open>
  \<^bold>\<open>C6.\<close> As stated, for every duplicate-free list of \<open>N \<ge> 1\<close> identifiers, the claim
  fails: the macro appends its own enumerator \<^verbatim>\<open>TOTAL\<close> to the list, so a list that names
  \<^verbatim>\<open>TOTAL\<close> itself, such as the one-element list \<^verbatim>\<open>[TOTAL]\<close>, declares that enumerator
  twice and nothing is generated. For a duplicate-free list of \<open>N \<ge> 1\<close> identifiers
  without \<^verbatim>\<open>TOTAL\<close>, and with \<open>N\<close> a value of the underlying type \<^verbatim>\<open>int\<close>, the macro
  does generate the enum and the table; the terminal marker \<^verbatim>\<open>TOTAL\<close> has the value \<open>N\<close>,
  the Name Table has \<open>N\<close> entries, and entry \<open>i\<close> is the \<open>i\<close>-th identifier of the list, whose
  enumerator has the value \<open>i\<close>.
\<close>

theorem generated_count_and_order:
  assumes "distinct ids" and "1 \<le> length ids"
    and "''TOTAL'' \<notin> set ids" and "int (length ids) \<le> INT_MAX"
  shows "\<exists>g. DEFINE_ENUM_WITH_STRING_CONVERSIONS ids = Inr g \<and>
             enumerator g ''TOTAL'' = Some (int (length ids)) \<and>
             length (EnumName_names g) = length ids \<and>
             (\<forall>i<length ids. EnumName_names g ! i = ids ! i \<and>
                              enumerator g (ids ! i) = Some (int i))"
proof -
  from DEFINE_ENUM_ok [OF assms(1,3,4)] obtain g where
    g: "DEFINE_ENUM_WITH_STRING_CONVERSIONS ids = Inr g" by blast
  note gen = DEFINE_ENUM_Inr [OF g]
  have "enumerator g ''TOTAL'' = Some (int (length ids))"
    using g by (rule enumerator_TOTAL)
  moreover have "\<forall>i<length ids. enumerator g (ids ! i) = Some (int i)"
    using g by (auto intro: enumerator_nth)
  ultimately show ?thesis using g gen(4) by auto
qed

theorem generated_count_and_order_witness:
  "distinct COLOUR_ENUM \<and> 1 \<le> length COLOUR_ENUM \<and> ''TOTAL'' \<notin> set COLOUR_ENUM \<and>
   int (length COLOUR_ENUM) \<le> INT_MAX \<and>
   (\<exists>g. DEFINE_ENUM_WITH_STRING_CONVERSIONS COLOUR_ENUM = Inr g \<and>
        enumerator g ''TOTAL'' = Some 3 \<and> length (EnumName_names g) = 3 \<and>
        EnumName_names g ! 1 = ''green'' \<and> enumerator g ''green'' = Some 1)"
proof -
  have h: "distinct COLOUR_ENUM" "1 \<le> length COLOUR_ENUM" "''TOTAL'' \<notin> set COLOUR_ENUM"
    "int (length COLOUR_ENUM) \<le> INT_MAX"
    by (simp_all add: COLOUR_ENUM_def INT_MAX_def)
  from generated_count_and_order [OF h] obtain g where
    g: "DEFINE_ENUM_WITH_STRING_CONVERSIONS COLOUR_ENUM = Inr g"
       "enumerator g ''TOTAL'' = Some (int (length COLOUR_ENUM))"
       "length (EnumName_names g) = length COLOUR_ENUM"
       "\<forall>i<length COLOUR_ENUM. EnumName_names g ! i = COLOUR_ENUM ! i \<and>
                              enumerator g (COLOUR_ENUM ! i) = Some (int i)"
    by blast
  have "1 < length COLOUR_ENUM" by (simp add: COLOUR_ENUM_def)
  with g(4) have "EnumName_names g ! 1 = COLOUR_ENUM ! 1 \<and>
                  enumerator g (COLOUR_ENUM ! 1) = Some (int 1)"
    by blast
  then have "EnumName_names g ! 1 = ''green'' \<and> enumerator g ''green'' = Some 1"
    by (simp add: COLOUR_ENUM_def)
  moreover from g(2,3) have "enumerator g ''TOTAL'' = Some 3 \<and> length (EnumName_names g) = 3"
    by (simp add: COLOUR_ENUM_def)
  ultimately show ?thesis using g(1) h by blast
qed

theorem reserved_name_counterexample:
  "distinct [''TOTAL''] \<and> 1 \<le> length [''TOTAL''] \<and>
   DEFINE_ENUM_WITH_STRING_CONVERSIONS [''TOTAL''] = Inl (Redefinition ''TOTAL'')"
  by (simp add: DEFINE_ENUM_WITH_STRING_CONVERSIONS_def X_MACRO_def EU_ENUM_DECLARE_def INT_MAX_def)

text \<open>
  \<^bold>\<open>C7.\<close> As stated the claim fails: from the list \<^verbatim>\<open>[red, red, blue]\<close> the macro
  generates nothing, because \<^verbatim>\<open>enum class EnumName { red, red, blue, TOTAL }\<close> declares
  \<^verbatim>\<open>red\<close> twice. What holds instead has two parts.
  A list with a repeated spelling is always rejected by the enum declaration, so there are no
  two variants rendering the same spelling. And on any array of spellings that holds \<open>s\<close> at
  two indices \<open>i < j\<close>, with \<open>i\<close> the first index holding \<open>s\<close>, \<open>to_string\<close> renders both
  ordinals as \<open>s\<close> while \<open>EnumName_from_string\<close> returns the ordinal \<open>i\<close> and never \<open>j\<close>.
\<close>

theorem duplicate_spellings:
  "(\<not> distinct ids \<longrightarrow>
      (\<exists>x. DEFINE_ENUM_WITH_STRING_CONVERSIONS ids = Inl (Redefinition x) \<or>
           DEFINE_ENUM_WITH_STRING_CONVERSIONS ids = Inl (NotRepresentable x))) \<and>
   (i < j \<and> j < length names \<and> int (length names) \<le> INT_MAX \<and>
    names ! i = s \<and> names ! j = s \<and> (\<forall>k<i. names ! k \<noteq> s) \<longrightarrow>
      int i \<noteq> int j \<and> to_string names (int i) = Inr s \<and> to_string names (int j) = Inr s \<and>
      EnumName_from_string names s = Inr (int i) \<and>
      EnumName_from_string names s \<noteq> Inr (int j))"
proof (intro conjI impI)
  assume dup: "\<not> distinct ids"
  show "\<exists>x. DEFINE_ENUM_WITH_STRING_CONVERSIONS ids = Inl (Redefinition x) \<or>
           DEFINE_ENUM_WITH_STRING_CONVERSIONS ids = Inl (NotRepresentable x)"
  proof (cases "DEFINE_ENUM_WITH_STRING_CONVERSIONS ids")
    case (Inl err)
    with DEFINE_ENUM_Inl [OF Inl] show ?thesis by auto
  next
    case (Inr g)
    from DEFINE_ENUM_Inr(1) [OF Inr] dup show ?thesis by simp
  qed
next
  assume h: "i < j \<and> j < length names \<and> int (length names) \<le> INT_MAX \<and>
    names ! i = s \<and> names ! j = s \<and> (\<forall>k<i. names ! k \<noteq> s)"
  then show "int i \<noteq> int j" by simp
  from h have "to_string names (int i) = Inr (names ! i)" by (intro to_string_valid) simp_all
  with h show "to_string names (int i) = Inr s" by simp
  from h have "to_string names (int j) = Inr (names ! j)" by (intro to_string_valid) simp_all
  with h show "to_string names (int j) = Inr s" by simp
  from h show r: "EnumName_from_string names s = Inr (int i)" by (intro from_string_first) simp_all
  from h r show "EnumName_from_string names s \<noteq> Inr (int j)" by simp
qed

theorem duplicate_spellings_witness:
  "\<not> distinct [''red'', ''red'', ''blue''] \<and>
   (\<exists>x. DEFINE_ENUM_WITH_STRING_CONVERSIONS [''red'', ''red'', ''blue''] = Inl (Redefinition x) \<or>
        DEFINE_ENUM_WITH_STRING_CONVERSIONS [''red'', ''red'', ''blue''] = Inl (NotRepresentable x)) \<and>
   to_string [''red'', ''red'', ''blue''] 0 = Inr ''red'' \<and>
   to_string [''red'', ''red'', ''blue''] 1 = Inr ''red'' \<and>
   EnumName_from_string [''red'', ''red'', ''blue''] ''red'' = Inr 0 \<and>
   EnumName_from_string [''red'', ''red'', ''blue''] ''red'' \<noteq> Inr 1"
  using duplicate_spellings [of "[''red'', ''red'', ''blue'']" 0 1 "[''red'', ''red'', ''blue'']" "''red''"]
  by (simp add: INT_MAX_def)

theorem duplicate_list_counterexample:
  "\<not> distinct [''red'', ''red'', ''blue''] \<and>
   DEFINE_ENUM_WITH_STRING_CONVERSIONS [''red'', ''red'', ''blue''] = Inl (Redefinition ''red'')"
  by (simp add: DEFINE_ENUM_WITH_STRING_CONVERSIONS_def X_MACRO_def EU_ENUM_DECLARE_def INT_MAX_def)

text \<open>
  \<^bold>\<open>C8.\<close> For a valid variant, with ordinal in \<open>0..N-1\<close>, the index that \<open>to_string\<close>
  computes is the ordinal itself and lies inside the Name Table, so \<open>to_string\<close> reads the
  entry at that index and returns it: the call has no undefined behaviour. The terminal
  marker \<^verbatim>\<open>TOTAL\<close> has the value \<open>N\<close>; its index is \<open>N\<close>, the size of the table, which is
  not below the size, so it has no entry, and \<open>to_string\<close> of it reads past the end of the
  array, which is undefined behaviour.
\<close>

theorem to_string_bounds:
  assumes "DEFINE_ENUM_WITH_STRING_CONVERSIONS ids = Inr g"
  shows "(0 \<le> v \<and> v < int (length ids) \<longrightarrow>
            static_cast_size_t v < length (EnumName_names g) \<and>
            static_cast_size_t v = nat v \<and>
            to_string (EnumName_names g) v = Inr (EnumName_names g ! static_cast_size_t v) \<and>
            to_string (EnumName_names g) v \<noteq> Inl UndefinedBehaviour) \<and>
         enumerator g ''TOTAL'' = Some (int (length ids)) \<and>
         static_cast_size_t (int (length ids)) = length (EnumName_names g) \<and>
         \<not> static_cast_size_t (int (length ids)) < length (EnumName_names g) \<and>
         to_string (EnumName_names g) (int (length ids)) = Inl UndefinedBehaviour"
proof -
  note gen = DEFINE_ENUM_Inr [OF assms]
  have idx: "static_cast_size_t (int (length ids)) = length ids"
    using gen(2) by (rule static_cast_size_t_int)
  have valid: "static_cast_size_t v < length (EnumName_names g) \<and>
               static_cast_size_t v = nat v \<and>
               to_string (EnumName_names g) v = Inr (EnumName_names g ! static_cast_size_t v) \<and>
               to_string (EnumName_names g) v \<noteq> Inl UndefinedBehaviour"
    if v: "0 \<le> v \<and> v < int (length ids)"
  proof -
    from v gen(2) have cast: "static_cast_size_t v = nat v"
      by (intro static_cast_size_t_nonneg) simp_all
    from v gen(4) have lt: "nat v < length (EnumName_names g)" by auto
    from cast lt have "to_string (EnumName_names g) v = Inr (EnumName_names g ! static_cast_size_t v)"
      by (simp add: to_string_def array_at_def)
    with cast lt show ?thesis by simp
  qed
  have "to_string (EnumName_names g) (int (length ids)) = Inl UndefinedBehaviour"
    using idx gen(4) by (simp add: to_string_def array_at_def)
  with valid idx gen(4) enumerator_TOTAL [OF assms] show ?thesis by auto
qed

theorem to_string_bounds_witness:
  "DEFINE_ENUM_WITH_STRING_CONVERSIONS COLOUR_ENUM = Inr Colour \<and>
   (0::int) \<le> 2 \<and> 2 < int (length COLOUR_ENUM) \<and>
   static_cast_size_t 2 < length (EnumName_names Colour) \<and>
   to_string (EnumName_names Colour) 2 = Inr ''blue'' \<and>
   enumerator Colour ''TOTAL'' = Some 3 \<and>
   to_string (EnumName_names Colour) 3 = Inl UndefinedBehaviour"
  using to_string_bounds [OF Colour_generated, of 2] Colour_generated
  by (simp add: COLOUR_ENUM_def Colour_names)

text \<open>
  \<^bold>\<open>C9.\<close> For a valid variant \<open>v\<close> and any sink \<open>os\<close> with any insertion \<open>put\<close> of text,
  the stream insertion operator inserts the spelling of \<open>v\<close>, exactly what \<open>to_string\<close>
  returns, once and with nothing added, and returns the sink that this insertion returns.
  Chained insertions therefore insert the spellings one after the other.
\<close>

theorem stream_insertion:
  assumes "DEFINE_ENUM_WITH_STRING_CONVERSIONS ids = Inr g"
    and "0 \<le> v" and "v < int (length (EnumName_names g))"
    and "0 \<le> w" and "w < int (length (EnumName_names g))"
  shows "to_string (EnumName_names g) v = Inr (ids ! nat v) \<and>
         operator_lshift put (EnumName_names g) os v = Inr (put os (ids ! nat v)) \<and>
         (case operator_lshift put (EnumName_names g) os v of
            Inl f \<Rightarrow> Inl f
          | Inr os' \<Rightarrow> operator_lshift put (EnumName_names g) os' w)
           = Inr (put (put os (ids ! nat v)) (ids ! nat w))"
proof -
  note gen = DEFINE_ENUM_Inr [OF assms(1)]
  have spelling: "to_string (EnumName_names g) u = Inr (ids ! nat u)"
    if "0 \<le> u" and "u < int (length (EnumName_names g))" for u
  proof -
    from that have lt: "nat u < length (EnumName_names g)" by simp
    have "to_string (EnumName_names g) (int (nat u)) = Inr (EnumName_names g ! nat u)"
      using lt gen(2,4) by (intro to_string_valid) simp_all
    with that(1) gen(4) show ?thesis by simp
  qed
  from spelling [OF assms(2,3)] spelling [OF assms(4,5)] show ?thesis
    by (simp add: operator_lshift_def)
qed

theorem stream_insertion_witness:
  "DEFINE_ENUM_WITH_STRING_CONVERSIONS COLOUR_ENUM = Inr Colour \<and>
   (0::int) \<le> 1 \<and> 1 < int (length (EnumName_names Colour)) \<and>
   (0::int) \<le> 2 \<and> 2 < int (length (EnumName_names Colour)) \<and>
   operator_lshift sink_put (EnumName_names Colour) ''c = '' 1 = Inr ''c = green'' \<and>
   (case operator_lshift sink_put (EnumName_names Colour) ''c = '' 1 of
      Inl f \<Rightarrow> Inl f
    | Inr os' \<Rightarrow> operator_lshift sink_put (EnumName_names Colour) os' 2) = Inr ''c = greenblue''"
proof -
  have h: "(0::int) \<le> 1" "1 < int (length (EnumName_names Colour))"
    "(0::int) \<le> 2" "2 < int (length (EnumName_names Colour))"
    by (simp_all add: Colour_names)
  have e1: "sink_put ''c = '' (COLOUR_ENUM ! nat 1) = ''c = green''"
    and e2: "sink_put ''c = green'' (COLOUR_ENUM ! nat 2) = ''c = greenblue''"
    by (simp_all add: COLOUR_ENUM_def sink_put_def)
  note stream_insertion [OF Colour_generated h, of sink_put "''c = ''", unfolded e1 e2]
  with h Colour_generated show ?thesis by blast
qed

text \<open>
  \<^bold>\<open>C10.\<close> Whenever \<open>EnumName_from_string\<close> returns a value, the value is a valid
  variant: its ordinal is at least 0 and below \<open>N\<close>, the size of the Name Table, and so it is
  not the terminal marker \<^verbatim>\<open>TOTAL\<close>, whose value is \<open>N\<close>.
\<close>

theorem from_string_returns_valid_variant:
  assumes "DEFINE_ENUM_WITH_STRING_CONVERSIONS ids = Inr g"
    and "EnumName_from_string (EnumName_names g) s = Inr v"
  shows "0 \<le> v \<and> v < int (length (EnumName_names g)) \<and>
         length (EnumName_names g) = length ids \<and>
         enumerator g ''TOTAL'' = Some (int (length ids)) \<and>
         enumerator g ''TOTAL'' \<noteq> Some v"
proof -
  note gen = DEFINE_ENUM_Inr [OF assms(1)]
  from assms(2) have "from_string_loop (EnumName_names g) s 0 = Inr v"
    by (simp add: EnumName_from_string_def)
  from from_string_loop_Inr [OF this] obtain j where
    j: "j < length (EnumName_names g)" "v = static_cast_EnumName j"
    by blast
  have "static_cast_EnumName j = int j"
    using j(1) gen(2,4) by (intro static_cast_EnumName_small) simp
  with j have v: "v = int j" by simp
  with j(1) gen(4) enumerator_TOTAL [OF assms(1)] show ?thesis by simp
qed

theorem from_string_returns_valid_variant_witness:
  "DEFINE_ENUM_WITH_STRING_CONVERSIONS COLOUR_ENUM = Inr Colour \<and>
   EnumName_from_string (EnumName_names Colour) ''blue'' = Inr 2 \<and>
   (2::int) < int (length (EnumName_names Colour)) \<and>
   enumerator Colour ''TOTAL'' = Some 3"
proof -
  have r: "EnumName_from_string (EnumName_names Colour) ''blue'' = Inr 2"
    by (simp add: Colour_names EnumName_from_string_def from_string_loop.simps
        static_cast_EnumName_def INT_MAX_def)
  from from_string_returns_valid_variant [OF Colour_generated r] r Colour_generated
  show ?thesis by (simp add: COLOUR_ENUM_def)
qed

end
